theory Spec2Isabelle
  imports Main "HOL-Library.Word" "HOL-Library.Multiset" "HOL-Library.Sublist"
begin

section \<open>Bit packing: \<open>WriteEncodedStringToFile\<close>\<close>

text \<open>
  The packer wraps the encoded string of \<open>'0'\<close>/\<open>'1'\<close> characters in a
  \<open>std::stringstream\<close> and repeatedly extracts a \<open>std::bitset<8>\<close> from it.
  The stream is modelled by the characters not yet extracted and its two state flags
  (\<open>badbit\<close> is never set on an in-memory stream).
\<close>

record sstream =
  buf :: string
  eofbit :: bool
  failbit :: bool

definition good :: "sstream \<Rightarrow> bool" where
  "good s = (\<not> eofbit s \<and> \<not> failbit s)"

definition isspace :: "char \<Rightarrow> bool" where
  "isspace c = (c = CHR '' '' \<or> c = CHR 0x09 \<or> c = CHR 0x0A \<or> c = CHR 0x0B
                \<or> c = CHR 0x0C \<or> c = CHR 0x0D)"

definition is_bit :: "char \<Rightarrow> bool" where
  "is_bit c = (c = CHR ''0'' \<or> c = CHR ''1'')"

text \<open>
  \<open>std::bitset<8>(str)\<close> for a string of at most 8 binary digits: the last character
  is bit 0, earlier characters are the higher bits, the positions above the string are 0.
\<close>

definition bitset_of_string :: "string \<Rightarrow> 8 word" where
  "bitset_of_string str = foldl (\<lambda>w c. 2 * w + (if c = CHR ''1'' then 1 else 0)) 0 str"

text \<open>\<open>bitset<8>::to_string\<close>: the 8 bits, bit 7 first.\<close>

definition bitset_to_string :: "8 word \<Rightarrow> string" where
  "bitset_to_string w = map (\<lambda>i. if bit w i then CHR ''1'' else CHR ''0'') (rev [0..<8])"

text \<open>
  \<open>sstream >> bits\<close>. The sentry skips white space and fails (\<open>eofbit\<close> and
  \<open>failbit\<close>) when no character is left, leaving \<open>bits\<close> as it was. Otherwise up to
  8 characters are taken while they are binary digits; running out of characters before
  the 8th sets \<open>eofbit\<close>; no digit at all sets \<open>failbit\<close> and leaves \<open>bits\<close>.
\<close>

definition extract_bitset :: "sstream \<Rightarrow> 8 word \<Rightarrow> sstream \<times> 8 word" where
  "extract_bitset s bits =
     (if \<not> good s then (s\<lparr>failbit := True\<rparr>, bits)
      else let rest = dropWhile isspace (buf s) in
        if rest = [] then (s\<lparr>buf := [], eofbit := True, failbit := True\<rparr>, bits)
        else let tmp = takeWhile is_bit (take 8 rest);
                 rest' = drop (length tmp) rest
             in if tmp = [] then (s\<lparr>buf := rest', failbit := True\<rparr>, bits)
                else (s\<lparr>buf := rest', eofbit := (length tmp < 8 \<and> rest' = [])\<rparr>,
                      bitset_of_string tmp))"

lemma extract_bitset_cases:
  assumes "good s"
  defines "rest \<equiv> dropWhile isspace (buf s)"
  defines "tmp \<equiv> takeWhile is_bit (take 8 rest)"
  shows "extract_bitset s bits =
     (if rest = [] then (s\<lparr>buf := [], eofbit := True, failbit := True\<rparr>, bits)
      else if tmp = [] then (s\<lparr>buf := rest, failbit := True\<rparr>, bits)
      else (s\<lparr>buf := drop (length tmp) rest,
              eofbit := (length tmp < 8 \<and> drop (length tmp) rest = [])\<rparr>,
            bitset_of_string tmp))"
  unfolding extract_bitset_def rest_def tmp_def Let_def using assms(1)
  by (simp del: dropWhile_eq_Nil_conv takeWhile_eq_Nil_iff)

lemma extract_bitset_measure:
  assumes g: "good s" and e: "extract_bitset s bits = (s', bits')"
  shows "(if good s' then Suc (length (buf s')) else 0) < Suc (length (buf s))"
proof -
  define rest where "rest = dropWhile isspace (buf s)"
  define tmp where "tmp = takeWhile is_bit (take 8 rest)"
  have len: "length rest \<le> length (buf s)"
    unfolding rest_def by (rule length_dropWhile_le)
  note c = extract_bitset_cases [OF g, of bits, folded rest_def, folded tmp_def]
  show ?thesis
  proof (cases "rest = []")
    case True
    with c e have "failbit s'" by auto
    then show ?thesis by (simp add: good_def)
  next
    case False
    show ?thesis
    proof (cases "tmp = []")
      case True
      with c e False have "failbit s'" by auto
      then show ?thesis by (simp add: good_def)
    next
      case nonempty: False
      then have "0 < length tmp" by simp
      with False have "length (drop (length tmp) rest) < length rest"
        by (cases rest) auto
      moreover from c e False nonempty have "buf s' = drop (length tmp) rest" by auto
      ultimately show ?thesis using len by simp
    qed
  qed
qed

text \<open>
  The loop \<open>while (sstream.good()) { sstream >> bits; write(bits) }\<close>; the result is the
  list of bytes written to the output file.
\<close>

function write_loop :: "sstream \<Rightarrow> 8 word \<Rightarrow> 8 word list" where
  "write_loop s bits =
     (if good s
      then (case extract_bitset s bits of (s', bits') \<Rightarrow> bits' # write_loop s' bits')
      else [])"
  by pat_completeness auto
termination
  apply (relation "measure (\<lambda>(s, bits). if good s then Suc (length (buf s)) else 0)")
   apply simp
  subgoal for s bits s' bits'
    using extract_bitset_measure [of s bits s' bits']
    by (cases "extract_bitset s bits") (auto split: if_splits)
  done

declare write_loop.simps [simp del]

definition WriteEncodedStringToFile :: "string \<Rightarrow> 8 word list" where
  "WriteEncodedStringToFile encodedString =
     write_loop \<lparr>buf = encodedString, eofbit = False, failbit = False\<rparr> 0"


section \<open>Unpacking and decoding: \<open>DecodeBinaryFile\<close>, \<open>Decode\<close>\<close>

text \<open>
  \<open>Decode\<close> appends each bit to \<open>temp\<close>; when \<open>temp\<close> is a key of the table the mapped
  character is written and \<open>temp\<close> is reset. The state of the loop is the text written
  so far and \<open>temp\<close>. The function has no return value and no error path: what is left
  in \<open>temp\<close> after the last bit is dropped with the local variable.
\<close>

definition Decode_step :: "(string \<rightharpoonup> char) \<Rightarrow> string \<times> string \<Rightarrow> char \<Rightarrow> string \<times> string" where
  "Decode_step huffmanCodes st b =
     (let temp = snd st @ [b]
      in case huffmanCodes temp of
           Some c \<Rightarrow> (fst st @ [c], [])
         | None \<Rightarrow> (fst st, temp))"

definition Decode_run :: "string \<Rightarrow> (string \<rightharpoonup> char) \<Rightarrow> string \<times> string" where
  "Decode_run encodedString huffmanCodes = foldl (Decode_step huffmanCodes) ([], []) encodedString"

definition Decode :: "string \<Rightarrow> (string \<rightharpoonup> char) \<Rightarrow> string" where
  "Decode encodedString huffmanCodes = fst (Decode_run encodedString huffmanCodes)"

definition DecodeBinaryFile :: "8 word list \<Rightarrow> (string \<rightharpoonup> char) \<Rightarrow> string" where
  "DecodeBinaryFile encodedBinaryString huffmanCodes =
     Decode (concat (map bitset_to_string encodedBinaryString)) huffmanCodes"

section \<open>The code table file: \<open>DecodeFile\<close>\<close>

definition newline :: char where
  "newline = CHR 0x0A"

definition escaped_newline :: string where
  "escaped_newline = [CHR 0x5C, CHR ''n'']"

text \<open>
  The successive results of \<open>getline(codeFile, line)\<close>: the characters up to the next
  line break, which is consumed; the loop ends when nothing is left to read.
\<close>

function getlines :: "string \<Rightarrow> string list" where
  "getlines [] = []"
| "getlines (c # cs) =
     takeWhile (\<lambda>x. x \<noteq> newline) (c # cs)
       # getlines (drop 1 (dropWhile (\<lambda>x. x \<noteq> newline) (c # cs)))"
  by pat_completeness auto
termination
proof (relation "measure length")
  show "wf (measure length)" by simp
next
  fix c :: char and cs :: string
  have "length (dropWhile (\<lambda>x. x \<noteq> newline) (c # cs)) \<le> length (c # cs)"
    by (rule length_dropWhile_le)
  moreover have "dropWhile (\<lambda>x. x \<noteq> newline) (c # cs) \<noteq> [] \<Longrightarrow>
      length (drop 1 (dropWhile (\<lambda>x. x \<noteq> newline) (c # cs)))
        < length (dropWhile (\<lambda>x. x \<noteq> newline) (c # cs))"
    by (cases "dropWhile (\<lambda>x. x \<noteq> newline) (c # cs)") simp_all
  ultimately show "(drop 1 (dropWhile (\<lambda>x. x \<noteq> newline) (c # cs)), c # cs) \<in> measure length"
    by (cases "dropWhile (\<lambda>x. x \<noteq> newline) (c # cs) = []") simp_all
qed

text \<open>
  One record. \<open>line.find(':')\<close> is \<open>npos\<close> when the line has no colon: then
  \<open>substr(0, npos)\<close> is the whole line and \<open>substr(npos + 1)\<close> is \<open>substr(0)\<close>, the whole
  line again. \<open>symbol[0]\<close> of an empty symbol is the string's terminating \<open>'\0'\<close>.
\<close>

definition parse_record :: "string \<Rightarrow> (string \<rightharpoonup> char) \<Rightarrow> (string \<rightharpoonup> char)" where
  "parse_record line huffmanCodes =
     (let symbol = takeWhile (\<lambda>x. x \<noteq> CHR '':'') line;
          code = (if CHR '':'' \<in> set line then drop (length symbol + 1) line else line)
      in if symbol = escaped_newline then huffmanCodes(code \<mapsto> newline)
         else huffmanCodes(code \<mapsto> (case symbol of [] \<Rightarrow> CHR 0x00 | c # _ \<Rightarrow> c)))"

definition read_records :: "(string \<rightharpoonup> char) \<Rightarrow> string list \<Rightarrow> (string \<rightharpoonup> char)" where
  "read_records huffmanCodes lines =
     foldl (\<lambda>huffmanCodes line. if line \<noteq> [] then parse_record line huffmanCodes else huffmanCodes)
       huffmanCodes lines"

definition read_code_table :: "string \<Rightarrow> (string \<rightharpoonup> char)" where
  "read_code_table codeFile = read_records Map.empty (getlines codeFile)"

definition DecodeFile :: "8 word list \<Rightarrow> string \<Rightarrow> string" where
  "DecodeFile encodedFile codeFile = DecodeBinaryFile encodedFile (read_code_table codeFile)"

section \<open>Tree construction and code generation: \<open>BuildHuffmanTree\<close>\<close>

text \<open>
  A \<open>TreeNode*\<close> is either \<open>nullptr\<close> or points to a node with a character, an
  \<open>unsigned\<close> frequency (32 bits, wrapping) and two child pointers.
\<close>

datatype TreeNode =
  Null
  | Node (character: char) (frequency: "32 word") (left: TreeNode) (right: TreeNode)

definition CompareNodes :: "TreeNode \<Rightarrow> TreeNode \<Rightarrow> bool" where
  "CompareNodes l r = (frequency l > frequency r)"

fun GenerateHuffmanCodes :: "TreeNode \<Rightarrow> string \<Rightarrow> (char \<rightharpoonup> string) \<Rightarrow> (char \<rightharpoonup> string)" where
  "GenerateHuffmanCodes Null str huffmanCodes = huffmanCodes"
| "GenerateHuffmanCodes (Node c f l r) str huffmanCodes =
     GenerateHuffmanCodes r (str @ ''1'')
       (GenerateHuffmanCodes l (str @ ''0'')
          (if l = Null \<and> r = Null then huffmanCodes(c \<mapsto> str) else huffmanCodes))"

text \<open>
  \<open>charFrequencyMap[ch]++\<close>: a missing key is inserted with the value 0 first.
\<close>

definition increment :: "(char \<rightharpoonup> 32 word) \<Rightarrow> char \<Rightarrow> (char \<rightharpoonup> 32 word)" where
  "increment m ch = m(ch \<mapsto> (case m ch of None \<Rightarrow> 0 | Some n \<Rightarrow> n) + 1)"

definition charFrequencyMap :: "string \<Rightarrow> (char \<rightharpoonup> 32 word)" where
  "charFrequencyMap inputText = increment (foldl increment Map.empty inputText) newline"

text \<open>
  Iterating over a \<open>std::unordered_map\<close> visits every entry once, in an order the
  language leaves to the hash table. The order is a parameter of the model: the keys
  listed in \<open>order\<close> come first, in that order, then the remaining keys by character
  code. Every order of the entries is the iteration for some \<open>order\<close>.
\<close>

definition iteration :: "char list \<Rightarrow> (char \<rightharpoonup> 'v) \<Rightarrow> (char \<times> 'v) list" where
  "iteration order m =
     List.map_filter (\<lambda>c. map_option (Pair c) (m c))
       (remdups order @ filter (\<lambda>c. c \<notin> set order) Enum.enum)"

text \<open>
  \<open>std::priority_queue<TreeNode*, vector<TreeNode*>, CompareNodes>\<close>: the model keeps the
  elements in the order they were pushed. \<open>top()\<close> is an element that \<open>CompareNodes\<close>
  puts before no other, that is, one of the least frequency; which one among several
  is the library's choice, and a parameter of the model: \<open>pq_top k q\<close> is the
  \<open>k\<close>-th of these candidates (counted cyclically). \<open>top()\<close> of an empty queue is undefined.
\<close>

definition push :: "TreeNode list \<Rightarrow> TreeNode \<Rightarrow> TreeNode list" where
  "push q x = q @ [x]"

definition pq_candidates :: "TreeNode list \<Rightarrow> TreeNode list" where
  "pq_candidates q = filter (\<lambda>x. list_all (\<lambda>y. \<not> CompareNodes x y) q) q"

definition pq_top :: "nat \<Rightarrow> TreeNode list \<Rightarrow> TreeNode" where
  "pq_top k q = pq_candidates q ! (k mod length (pq_candidates q))"

definition pop :: "nat \<Rightarrow> TreeNode list \<Rightarrow> TreeNode list" where
  "pop k q = remove1 (pq_top k q) q"

text \<open>The choices of the queue, one number for each \<open>top()\<close>/\<open>pop()\<close> pair; 0 when the list is used up.\<close>

definition next_choice :: "nat list \<Rightarrow> nat" where
  "next_choice ks = (case ks of [] \<Rightarrow> 0 | k # _ \<Rightarrow> k)"

lemma pq_candidates_nonempty: "q \<noteq> [] \<Longrightarrow> pq_candidates q \<noteq> []"
proof -
  assume "q \<noteq> []"
  then obtain x where x: "x \<in> set q" "\<forall>y \<in> set q. frequency x \<le> frequency y"
    using ex_min_if_finite [of "frequency ` set q"]
    by (auto simp: not_less)
  then have "x \<in> set (pq_candidates q)"
    by (auto simp: pq_candidates_def list_all_iff CompareNodes_def not_less)
  then show ?thesis by auto
qed

lemma pq_top_in_candidates: "q \<noteq> [] \<Longrightarrow> pq_top k q \<in> set (pq_candidates q)"
  using pq_candidates_nonempty [of q] by (simp add: pq_top_def)

lemma pq_top_in_queue: "q \<noteq> [] \<Longrightarrow> pq_top k q \<in> set q"
  using pq_top_in_candidates [of q k] by (simp add: pq_candidates_def)

lemma length_pop: "q \<noteq> [] \<Longrightarrow> Suc (length (pop k q)) = length q"
proof -
  assume "q \<noteq> []"
  then have "0 < length q" and "pq_top k q \<in> set q"
    by (simp_all add: pq_top_in_queue)
  then show ?thesis by (simp add: pop_def length_remove1)
qed

text \<open>
  The loop \<open>while (priorityQueue.size() != 1)\<close> followed by \<open>priorityQueue.top()\<close>.
  On an empty queue the first \<open>top()\<close> is undefined behaviour: \<open>None\<close>.
\<close>

function merge_loop :: "nat list \<Rightarrow> TreeNode list \<Rightarrow> TreeNode option" where
  "merge_loop ks [] = None"
| "merge_loop ks [root] = Some root"
| "merge_loop ks (x # y # q) =
     (let priorityQueue = x # y # q;
          leftNode = pq_top (next_choice ks) priorityQueue;
          priorityQueue = pop (next_choice ks) priorityQueue;
          rightNode = pq_top (next_choice (tl ks)) priorityQueue;
          priorityQueue = pop (next_choice (tl ks)) priorityQueue;
          parentNode = Node (CHR ''$'') (frequency leftNode + frequency rightNode) leftNode rightNode
      in merge_loop (tl (tl ks)) (push priorityQueue parentNode))"
  by pat_completeness auto
termination
proof (relation "measure (\<lambda>(ks, q). length q)")
  show "wf (measure (\<lambda>(ks, q). length q))" by simp
next
  fix ks :: "nat list" and x y :: TreeNode and q xa xb xc xd xe xf
  assume "xa = x # y # q" and "xc = pop (next_choice ks) xa"
    and "xe = pop (next_choice (tl ks)) xc"
  then have "Suc (length xc) = length (x # y # q)" and "xc \<noteq> []"
    using length_pop [of "x # y # q" "next_choice ks"] by auto
  then have "Suc (Suc (length xe)) = length (x # y # q)"
    using length_pop [of xc "next_choice (tl ks)"] \<open>xe = pop (next_choice (tl ks)) xc\<close> by simp
  then show "((tl (tl ks), push xe xf), ks, x # y # q) \<in> measure (\<lambda>(ks, q). length q)"
    by (simp add: push_def)
qed

text \<open>One record of the \<open>.huff\<close> file: the symbol (a line break as backslash-n), a colon, the code, \<open>endl\<close>.\<close>

definition code_record :: "char \<times> string \<Rightarrow> string" where
  "code_record pair =
     (if fst pair = newline then escaped_newline @ '':'' @ snd pair @ [newline]
      else [fst pair] @ '':'' @ snd pair @ [newline])"

text \<open>
  \<open>huffmanCodeMap[ch]\<close> while encoding: the code of \<open>ch\<close> (a missing key would be
  inserted with the empty string).
\<close>

definition code_of :: "(char \<rightharpoonup> string) \<Rightarrow> char \<Rightarrow> string" where
  "code_of huffmanCodeMap ch = (case huffmanCodeMap ch of None \<Rightarrow> [] | Some s \<Rightarrow> s)"

definition seed_queue :: "(char \<times> 32 word) list \<Rightarrow> TreeNode list" where
  "seed_queue entries = foldl (\<lambda>q pair. push q (Node (fst pair) (snd pair) Null Null)) [] entries"

text \<open>
  \<open>BuildHuffmanTree\<close> as \<open>main\<close> calls it, with an empty priority queue. Its parameters
  beyond the input text are the choices the source leaves to the library: \<open>ks\<close> for the
  queue, \<open>order1\<close> for the iteration over \<open>charFrequencyMap\<close>, \<open>order2\<close> for the
  iteration over \<open>huffmanCodeMap\<close>. The result is the pair of files written: the packed
  bytes and the \<open>.huff\<close> code table.
\<close>

definition huffman_tree :: "nat list \<Rightarrow> char list \<Rightarrow> (char \<rightharpoonup> 32 word) \<Rightarrow> TreeNode option" where
  "huffman_tree ks order1 freqs = merge_loop ks (seed_queue (iteration order1 freqs))"

definition huffmanCodeMap :: "nat list \<Rightarrow> char list \<Rightarrow> (char \<rightharpoonup> 32 word) \<Rightarrow> (char \<rightharpoonup> string) option" where
  "huffmanCodeMap ks order1 freqs =
     (case huffman_tree ks order1 freqs of
        None \<Rightarrow> None
      | Some root \<Rightarrow> Some (GenerateHuffmanCodes root [] Map.empty))"

definition BuildHuffmanTree ::
  "nat list \<Rightarrow> char list \<Rightarrow> char list \<Rightarrow> string \<Rightarrow> (8 word list \<times> string) option" where
  "BuildHuffmanTree ks order1 order2 inputText =
     (case huffmanCodeMap ks order1 (charFrequencyMap inputText) of
        None \<Rightarrow> None
      | Some codes \<Rightarrow>
          let codeFile = concat (map code_record (iteration order2 codes));
              encodedString = concat (map (code_of codes) inputText)
          in Some (WriteEncodedStringToFile encodedString, codeFile))"

section \<open>Notions used in the statements\<close>

text \<open>A stream that has just been constructed from a string.\<close>

abbreviation fresh :: "string \<Rightarrow> sstream" where
  "fresh bs \<equiv> \<lparr>buf = bs, eofbit = False, failbit = False\<rparr>"

text \<open>
  The leaves of a tree with the path that \<open>GenerateHuffmanCodes\<close> has accumulated when
  it reaches them, in the order it visits them, and the characters of the leaves.
\<close>

fun leaf_codes :: "TreeNode \<Rightarrow> string \<Rightarrow> (char \<times> string) list" where
  "leaf_codes Null str = []"
| "leaf_codes (Node c f l r) str =
     (if l = Null \<and> r = Null then [(c, str)] else [])
       @ leaf_codes l (str @ ''0'') @ leaf_codes r (str @ ''1'')"

fun symbols :: "TreeNode \<Rightarrow> char list" where
  "symbols Null = []"
| "symbols (Node c f l r) = (if l = Null \<and> r = Null then [c] else []) @ symbols l @ symbols r"

definition queue_symbols :: "TreeNode list \<Rightarrow> char list" where
  "queue_symbols q = concat (map symbols q)"

text \<open>Storing a list of pairs into a map, one after the other.\<close>

definition assign :: "(char \<rightharpoonup> string) \<Rightarrow> (char \<times> string) list \<Rightarrow> (char \<rightharpoonup> string)" where
  "assign m ps = foldl (\<lambda>m p. m(fst p \<mapsto> snd p)) m ps"

text \<open>The keys in the order in which \<open>iteration\<close> looks them up.\<close>

definition all_keys :: "char list \<Rightarrow> char list" where
  "all_keys order = remdups order @ filter (\<lambda>c. c \<notin> set order) Enum.enum"

text \<open>One record of the code table file without its line end.\<close>

definition record_line :: "char \<times> string \<Rightarrow> string" where
  "record_line pair =
     (if fst pair = newline then escaped_newline else [fst pair]) @ '':'' @ snd pair"

text \<open>
  The multisets of leaf depths of binary code trees: a single leaf at depth 0, or two
  such trees under a common root, which puts every leaf one level deeper.
\<close>

inductive full :: "nat multiset \<Rightarrow> bool" where
  leaf: "full {#0#}"
| node: "full A \<Longrightarrow> full B \<Longrightarrow> full (image_mset Suc (A + B))"

text \<open>
  A code tree with weights at its leaves, as the multiset of its (weight, depth) pairs;
  its cost is the sum of weight times depth.
\<close>

definition pcost :: "(nat \<times> nat) multiset \<Rightarrow> nat" where
  "pcost P = sum_mset (image_mset (\<lambda>p. fst p * snd p) P)"


text \<open>The leaves of a tree with their frequencies.\<close>

fun leaf_entries :: "TreeNode \<Rightarrow> (char \<times> 32 word) list" where
  "leaf_entries Null = []"
| "leaf_entries (Node c f l r) =
     (if l = Null \<and> r = Null then [(c, f)] else []) @ leaf_entries l @ leaf_entries r"





section \<open>Properties of the bit packer\<close>

lemma is_bit_not_space: "is_bit c \<Longrightarrow> \<not> isspace c"
  by (auto simp: is_bit_def isspace_def)

lemma dropWhile_isspace_bits: "list_all is_bit bs \<Longrightarrow> dropWhile isspace bs = bs"
  by (cases bs) (auto simp: is_bit_not_space)

lemma takeWhile_is_bit_take: "list_all is_bit bs \<Longrightarrow> takeWhile is_bit (take n bs) = take n bs"
  by (rule takeWhile_eq_all_conv [THEN iffD2]) (auto simp: list_all_iff dest: in_set_takeD)

lemma list_all_is_bit_drop: "list_all is_bit bs \<Longrightarrow> list_all is_bit (drop n bs)"
  by (auto simp: list_all_iff dest: in_set_dropD)

text \<open>One extraction from a stream of binary digits.\<close>

lemma extract_bitset_bits:
  assumes "list_all is_bit bs"
  shows "extract_bitset (fresh bs) bits =
     (if bs = [] then (\<lparr>buf = [], eofbit = True, failbit = True\<rparr>, bits)
      else (\<lparr>buf = drop 8 bs, eofbit = (length bs < 8), failbit = False\<rparr>,
            bitset_of_string (take 8 bs)))"
proof -
  have g: "good (fresh bs)" by (simp add: good_def)
  show ?thesis
    unfolding extract_bitset_cases [OF g]
    using assms
    by (auto simp add: dropWhile_isspace_bits takeWhile_is_bit_take min_def
        simp del: dropWhile_eq_Nil_conv takeWhile_eq_Nil_iff)
qed

text \<open>One round of the loop on a stream of binary digits.\<close>

lemma write_loop_not_good: "\<not> good s \<Longrightarrow> write_loop s bits = []"
  by (simp add: write_loop.simps)

lemma write_loop_good:
  "good s \<Longrightarrow> extract_bitset s bits = (s', bits') \<Longrightarrow>
   write_loop s bits = bits' # write_loop s' bits'"
  by (subst write_loop.simps) simp

lemma write_loop_bits:
  assumes "list_all is_bit bs"
  shows "write_loop (fresh bs) bits =
     (if bs = [] then [bits]
      else if length bs < 8 then [bitset_of_string bs]
      else bitset_of_string (take 8 bs)
             # write_loop (fresh (drop 8 bs)) (bitset_of_string (take 8 bs)))"
proof -
  have g: "good (fresh bs)" by (simp add: good_def)
  note e = extract_bitset_bits [OF assms, of bits]
  show ?thesis
  proof (cases "bs = []")
    case True
    with e have "write_loop (fresh bs) bits
        = bits # write_loop \<lparr>buf = [], eofbit = True, failbit = True\<rparr> bits"
      by (intro write_loop_good [OF g]) simp
    with True show ?thesis by (simp add: write_loop_not_good good_def)
  next
    case False
    with e have w: "write_loop (fresh bs) bits = bitset_of_string (take 8 bs)
        # write_loop \<lparr>buf = drop 8 bs, eofbit = (length bs < 8), failbit = False\<rparr>
            (bitset_of_string (take 8 bs))"
      by (intro write_loop_good [OF g]) simp
    show ?thesis
    proof (cases "length bs < 8")
      case True
      with w False show ?thesis by (simp add: write_loop_not_good good_def)
    next
      case False
      with w \<open>bs \<noteq> []\<close> show ?thesis by simp
    qed
  qed
qed

lemma write_loop_length:
  "list_all is_bit bs \<Longrightarrow> length (write_loop (fresh bs) bits) = length bs div 8 + 1"
proof (induction bs arbitrary: bits rule: length_induct)
  case (1 bs)
  show ?case
  proof (cases "length bs < 8")
    case True
    with 1(2) show ?thesis by (subst write_loop_bits) auto
  next
    case False
    have "length (drop 8 bs) < length bs" using False by simp
    from 1(1) [rule_format, OF this list_all_is_bit_drop [OF 1(2)]]
    have "length (write_loop (fresh (drop 8 bs)) (bitset_of_string (take 8 bs)))
        = length (drop 8 bs) div 8 + 1" .
    moreover obtain m where "length bs = m + 8"
      using False by (metis add.commute le_Suc_ex not_less)
    then have "(length bs - 8) div 8 + 1 = length bs div 8"
      by simp
    ultimately show ?thesis using False 1(2)
      by (subst write_loop_bits) auto
  qed
qed

lemma write_loop_last:
  "list_all is_bit bs \<Longrightarrow> bs \<noteq> [] \<Longrightarrow> length bs mod 8 = 0 \<Longrightarrow>
   \<exists>pre. write_loop (fresh bs) bits =
     pre @ [bitset_of_string (drop (length bs - 8) bs), bitset_of_string (drop (length bs - 8) bs)]"
proof (induction bs arbitrary: bits rule: length_induct)
  case (1 bs)
  from 1(3,4) have ge: "8 \<le> length bs"
    by (cases bs) (auto simp: mod_eq_0_iff_dvd dest: dvd_imp_le)
  have bits': "list_all is_bit (drop 8 bs)" using 1(2) by (rule list_all_is_bit_drop)
  let ?b = "bitset_of_string (take 8 bs)"
  have step: "write_loop (fresh bs) bits = ?b # write_loop (fresh (drop 8 bs)) ?b"
    using ge 1(2,3) by (subst write_loop_bits) auto
  show ?case
  proof (cases "drop 8 bs = []")
    case True
    then have "length bs = 8" using ge by simp
    then have "take 8 bs = bs" "drop (length bs - 8) bs = bs" by simp_all
    with step True show ?thesis
      by (subst (asm) (2) write_loop_bits) auto
  next
    case False
    have l: "length (drop 8 bs) < length bs" using ge by simp
    have m: "length (drop 8 bs) mod 8 = 0" using 1(4) ge
      by simp presburger
    from 1(1) [rule_format, OF l bits' False m, of ?b] obtain pre where
      "write_loop (fresh (drop 8 bs)) ?b =
         pre @ [bitset_of_string (drop (length (drop 8 bs) - 8) (drop 8 bs)),
                bitset_of_string (drop (length (drop 8 bs) - 8) (drop 8 bs))]"
      by blast
    moreover have "16 \<le> length bs" using False ge m
      by simp presburger
    then have "drop (length (drop 8 bs) - 8) (drop 8 bs) = drop (length bs - 8) bs"
      by simp
    ultimately show ?thesis using step by simp
  qed
qed

text \<open>
  C10. For an encoded string of \<open>n\<close> binary digits the packer writes exactly
  \<open>n div 8 + 1\<close> bytes, so the packed file is never empty. For \<open>n = 0\<close> it writes the
  single byte 0. For a positive multiple of 8 the last extraction fails, the bitset keeps
  its value, and the last two bytes written are both the byte of the final 8 digits.
\<close>

theorem packer_writes_one_more_byte:
  assumes "list_all is_bit encodedString"
  shows "length (WriteEncodedStringToFile encodedString) = length encodedString div 8 + 1
     \<and> WriteEncodedStringToFile encodedString \<noteq> []
     \<and> (encodedString = [] \<longrightarrow> WriteEncodedStringToFile encodedString = [0])
     \<and> (encodedString \<noteq> [] \<and> length encodedString mod 8 = 0 \<longrightarrow>
          (\<exists>pre. WriteEncodedStringToFile encodedString =
             pre @ [bitset_of_string (drop (length encodedString - 8) encodedString),
                    bitset_of_string (drop (length encodedString - 8) encodedString)]))"
proof -
  have len: "length (WriteEncodedStringToFile encodedString) = length encodedString div 8 + 1"
    unfolding WriteEncodedStringToFile_def using assms by (rule write_loop_length)
  then have "WriteEncodedStringToFile encodedString \<noteq> []"
    by auto
  moreover have "WriteEncodedStringToFile [] = [0]"
    unfolding WriteEncodedStringToFile_def by (subst write_loop_bits) simp_all
  moreover have "encodedString \<noteq> [] \<and> length encodedString mod 8 = 0 \<longrightarrow>
      (\<exists>pre. WriteEncodedStringToFile encodedString =
         pre @ [bitset_of_string (drop (length encodedString - 8) encodedString),
                bitset_of_string (drop (length encodedString - 8) encodedString)])"
    unfolding WriteEncodedStringToFile_def using write_loop_last [OF assms, of 0] by simp
  ultimately show ?thesis using len by auto
qed

theorem packer_writes_one_more_byte_witness:
  "list_all is_bit ''0000000100000010''
   \<and> length (WriteEncodedStringToFile ''0000000100000010'') = 3
   \<and> (\<exists>pre. WriteEncodedStringToFile ''0000000100000010'' = pre @ [2, 2])"
proof -
  have h: "list_all is_bit ''0000000100000010''"
    by (simp add: is_bit_def)
  have b: "bitset_of_string ''00000010'' = 2"
    by (simp add: bitset_of_string_def)
  from packer_writes_one_more_byte [OF h] h b show ?thesis
    by simp
qed


text \<open>
  C2. The claim puts a final group of fewer than 8 bits into the high positions of the
  last byte. The code extracts it with \<open>sstream >> bits\<close>, and a \<open>bitset<8>\<close> built from
  a shorter string holds it in the low positions: for the six bits \<open>001011\<close> (the
  codewords \<open>0, 0, 10, 11\<close>) the byte written is \<open>0x0B\<close>, not \<open>0x2C\<close>, and unpacking
  yields \<open>00001011\<close>, which does not start with the bits that were packed.
\<close>

theorem packer_final_byte_low_bits:
  "WriteEncodedStringToFile ''001011'' = [0x0B]
   \<and> concat (map bitset_to_string (WriteEncodedStringToFile ''001011'')) = ''00001011''"
  by code_simp

section \<open>Properties of the code table reader\<close>

lemma takeWhile_until: "x \<notin> set xs \<Longrightarrow> takeWhile (\<lambda>y. y \<noteq> x) (xs @ x # ys) = xs"
  by (induction xs) auto

lemma dropWhile_until: "x \<notin> set xs \<Longrightarrow> dropWhile (\<lambda>y. y \<noteq> x) (xs @ x # ys) = x # ys"
  by (induction xs) auto

lemma getlines_line:
  "newline \<notin> set line \<Longrightarrow> getlines (line @ newline # rest) = line # getlines rest"
proof (cases line)
  case Nil
  then show ?thesis by simp
next
  case (Cons c cs)
  assume "newline \<notin> set line"
  then have "takeWhile (\<lambda>x. x \<noteq> newline) (line @ newline # rest) = line"
    and "dropWhile (\<lambda>x. x \<noteq> newline) (line @ newline # rest) = newline # rest"
    by (simp_all add: takeWhile_until dropWhile_until)
  with Cons show ?thesis
    using getlines.simps(2) [of c "cs @ newline # rest"] by simp
qed

lemma getlines_append:
  "pre = [] \<or> last pre = newline \<Longrightarrow> getlines (pre @ post) = getlines pre @ getlines post"
proof (induction pre rule: getlines.induct)
  case 1
  then show ?case by simp
next
  case (2 c cs)
  define line where "line = takeWhile (\<lambda>x. x \<noteq> newline) (c # cs)"
  define rest0 where "rest0 = dropWhile (\<lambda>x. x \<noteq> newline) (c # cs)"
  have split: "c # cs = line @ rest0"
    unfolding line_def rest0_def by (rule takeWhile_dropWhile_id [symmetric])
  have "newline \<in> set (c # cs)"
    using 2(2) last_in_set [of "c # cs"] by auto
  then have "rest0 \<noteq> []"
    unfolding rest0_def dropWhile_eq_Nil_conv by blast
  moreover from this have "hd rest0 = newline"
    unfolding rest0_def using hd_dropWhile [of "\<lambda>x. x \<noteq> newline" "c # cs"] by blast
  ultimately obtain rest where rest: "rest0 = newline # rest"
    by (cases rest0) auto
  have nl: "newline \<notin> set line"
    unfolding line_def using set_takeWhileD [of newline "\<lambda>x. x \<noteq> newline" "c # cs"] by blast
  have eq: "c # cs = line @ newline # rest" using split rest by simp
  have "last (c # cs) = last (newline # rest)"
    unfolding eq by simp
  then have "rest = [] \<or> last rest = newline"
    using 2(2) by (cases rest) auto
  moreover have "drop 1 rest0 = rest" using rest by simp
  ultimately have IH: "getlines (rest @ post) = getlines rest @ getlines post"
    using 2(1) unfolding rest0_def by simp
  have "getlines ((c # cs) @ post) = getlines (line @ newline # (rest @ post))"
    unfolding eq by simp
  also have "\<dots> = line # getlines (rest @ post)" using nl by (rule getlines_line)
  also have "\<dots> = (line # getlines rest) @ getlines post" using IH by simp
  also have "line # getlines rest = getlines (line @ newline # rest)"
    using nl by (rule getlines_line [symmetric])
  finally show ?case unfolding eq .
qed

lemma read_records_append:
  "read_records m (xs @ ys) = read_records (read_records m xs) ys"
  by (simp add: read_records_def)

lemma parse_record_without_colon:
  assumes "line \<noteq> []" and "CHR '':'' \<notin> set line"
  shows "parse_record line m = m(line \<mapsto> (if line = escaped_newline then newline else hd line))"
proof -
  have "takeWhile (\<lambda>x. x \<noteq> CHR '':'') line = line"
    using assms(2) by (auto simp: takeWhile_eq_all_conv)
  then show ?thesis
    using assms by (cases line) (simp_all add: parse_record_def)
qed

text \<open>
  A record in the middle of the file, and a last record that has no line break after
  it, are both among the lines that \<open>getline\<close> returns.
\<close>

lemma getlines_unterminated:
  assumes "line \<noteq> []" and "newline \<notin> set line"
  shows "getlines line = [line]"
proof -
  from assms(1) obtain c cs where line: "line = c # cs" by (cases line) auto
  have "takeWhile (\<lambda>x. x \<noteq> newline) line = line"
    and "dropWhile (\<lambda>x. x \<noteq> newline) line = []"
    using assms(2) by (auto simp: takeWhile_eq_all_conv dropWhile_eq_Nil_conv)
  then show ?thesis
    unfolding line using getlines.simps(2) [of c cs] by simp
qed

lemma record_in_getlines:
  assumes "newline \<notin> set line" and "pre = [] \<or> last pre = newline"
  shows "line \<in> set (getlines (pre @ line @ newline # post))"
    and "line \<noteq> [] \<Longrightarrow> line \<in> set (getlines (pre @ line))"
  using assms by (simp_all add: getlines_append getlines_line getlines_unterminated)

text \<open>
  C7 as the code has it. A non-empty record without a colon, wherever it stands among
  the lines of the file (also as a last line without a line break), is not rejected
  (the reader has no failure outcome at all): the whole record becomes a code, mapped
  to the first character of the record, or to a line break when the record is
  backslash-n; the records before and after it are read as usual.
\<close>

theorem record_without_colon_is_accepted:
  assumes "line \<in> set (getlines codeFile)" and "line \<noteq> []" and "CHR '':'' \<notin> set line"
  shows "\<exists>before after. getlines codeFile = before @ line # after
     \<and> read_code_table codeFile =
         read_records
           ((read_records Map.empty before)
              (line \<mapsto> (if line = escaped_newline then newline else hd line)))
           after"
proof -
  from assms(1) obtain before after where split: "getlines codeFile = before @ line # after"
    by (auto dest: split_list)
  have "read_records m (line # after) =
      read_records (m(line \<mapsto> (if line = escaped_newline then newline else hd line))) after"
    for m
    using assms(2) parse_record_without_colon [OF assms(2,3), of m]
    by (simp add: read_records_def)
  then have "read_code_table codeFile =
      read_records
        ((read_records Map.empty before)
           (line \<mapsto> (if line = escaped_newline then newline else hd line)))
        after"
    unfolding read_code_table_def split read_records_append by simp
  with split show ?thesis by blast
qed

theorem record_without_colon_is_accepted_witness:
  "''b1'' \<in> set (getlines ''a:0\<newline>b1'')
   \<and> (\<exists>before after. getlines ''a:0\<newline>b1'' = before @ ''b1'' # after
        \<and> read_code_table ''a:0\<newline>b1'' =
            read_records ((read_records Map.empty before)(''b1'' \<mapsto> CHR ''b'')) after)
   \<and> read_code_table ''a:0\<newline>b1'' = [''0'' \<mapsto> CHR ''a'', ''b1'' \<mapsto> CHR ''b'']
   \<and> read_code_table ''a:0\<newline>b1\<newline>c:11\<newline>''
       = [''0'' \<mapsto> CHR ''a'', ''b1'' \<mapsto> CHR ''b'', ''11'' \<mapsto> CHR ''c'']"
proof -
  have 1: "''b1'' \<in> set (getlines ''a:0\<newline>b1'')"
    by (simp add: newline_def)
  have 2: "''b1'' \<noteq> []" and 3: "CHR '':'' \<notin> set ''b1''"
    by simp_all
  have e: "(if ''b1'' = escaped_newline then newline else hd ''b1'') = CHR ''b''"
    by (simp add: escaped_newline_def)
  have v: "read_code_table ''a:0\<newline>b1'' = [''0'' \<mapsto> CHR ''a'', ''b1'' \<mapsto> CHR ''b'']"
    "read_code_table ''a:0\<newline>b1\<newline>c:11\<newline>''
       = [''0'' \<mapsto> CHR ''a'', ''b1'' \<mapsto> CHR ''b'', ''11'' \<mapsto> CHR ''c'']"
    by (simp_all add: read_code_table_def read_records_def parse_record_def newline_def
        escaped_newline_def)
  from record_without_colon_is_accepted [OF 1 2 3]
  have "\<exists>before after. getlines ''a:0\<newline>b1'' = before @ ''b1'' # after
        \<and> read_code_table ''a:0\<newline>b1'' =
            read_records ((read_records Map.empty before)(''b1'' \<mapsto> CHR ''b'')) after"
    unfolding e .
  with 1 v show ?thesis by (intro conjI)
qed

text \<open>
  The claim as stated fails: the artifact whose only record is \<open>ab\<close> (no colon) is read
  without any failure, and to the very table of the well-formed artifact \<open>a:ab\<close>.
\<close>

theorem record_without_colon_counterexample:
  "CHR '':'' \<notin> set ''ab''
   \<and> read_code_table ''ab\<newline>'' = read_code_table ''a:ab\<newline>''
   \<and> read_code_table ''ab\<newline>'' ''ab'' = Some CHR ''a''"
  by (simp add: read_code_table_def read_records_def parse_record_def newline_def
      escaped_newline_def)

section \<open>Properties of the decoder\<close>

lemma Decode_run_snoc:
  "Decode_run (enc @ [b]) codes = Decode_step codes (Decode_run enc codes) b"
  by (simp add: Decode_run_def)

text \<open>What is left in \<open>temp\<close> is the end of the bits, and the output is that of the bits before it.\<close>

lemma Decode_run_split:
  "Decode_run enc codes = (out, temp) \<Longrightarrow>
   \<exists>pre. enc = pre @ temp \<and> Decode_run pre codes = (out, [])"
proof (induction enc arbitrary: out temp rule: rev_induct)
  case Nil
  then show ?case by (simp add: Decode_run_def)
next
  case (snoc b enc)
  obtain out0 temp0 where r: "Decode_run enc codes = (out0, temp0)"
    by (cases "Decode_run enc codes")
  from snoc.IH [OF r] obtain pre where pre: "enc = pre @ temp0" "Decode_run pre codes = (out0, [])"
    by blast
  show ?case
  proof (cases "codes (temp0 @ [b])")
    case None
    with snoc.prems r have "out = out0" "temp = temp0 @ [b]"
      by (simp_all add: Decode_run_snoc Decode_step_def)
    with pre show ?thesis by auto
  next
    case (Some c)
    with snoc.prems r have "temp = []"
      by (simp add: Decode_run_snoc Decode_step_def)
    with snoc.prems show ?thesis by auto
  qed
qed

text \<open>
  C8 as the code has it. When bits are left in \<open>temp\<close> at the end of the input, \<open>Decode\<close>
  reports nothing: its output is exactly the output for the input without these last
  bits, which are dropped.
\<close>

theorem unmatched_tail_is_dropped:
  assumes "Decode_run encodedString huffmanCodes = (out, temp)" and "temp \<noteq> []"
  shows "Decode encodedString huffmanCodes = out
     \<and> (\<exists>pre. encodedString = pre @ temp
            \<and> Decode_run pre huffmanCodes = (out, [])
            \<and> Decode pre huffmanCodes = Decode encodedString huffmanCodes)"
  using Decode_run_split [OF assms(1)] assms(1) by (auto simp: Decode_def)

theorem unmatched_tail_is_dropped_witness:
  "Decode_run ''100'' [''10'' \<mapsto> CHR ''a'', ''01'' \<mapsto> CHR ''b''] = (''a'', ''0'')
   \<and> Decode ''100'' [''10'' \<mapsto> CHR ''a'', ''01'' \<mapsto> CHR ''b''] = ''a''
   \<and> Decode ''10'' [''10'' \<mapsto> CHR ''a'', ''01'' \<mapsto> CHR ''b''] = ''a''"
proof -
  have r: "Decode_run ''100'' [''10'' \<mapsto> CHR ''a'', ''01'' \<mapsto> CHR ''b''] = (''a'', ''0'')"
    by (simp add: Decode_run_def Decode_step_def)
  have t: "''0'' \<noteq> []" by simp
  from unmatched_tail_is_dropped [OF r t] r show ?thesis
    by auto
qed

text \<open>
  The claim as stated fails: with the single code \<open>000000000\<close> (nine bits) the byte 0
  leaves eight unmatched bits in \<open>temp\<close>, and the output is the empty text, the same
  as for an empty file.
\<close>

theorem unmatched_tail_counterexample:
  "snd (Decode_run (concat (map bitset_to_string [0])) [''000000000'' \<mapsto> CHR ''a'']) = ''00000000''
   \<and> DecodeBinaryFile [0] [''000000000'' \<mapsto> CHR ''a''] = []
   \<and> DecodeBinaryFile [] [''000000000'' \<mapsto> CHR ''a''] = []"
  by code_simp

section \<open>Properties of the frequency counter\<close>

lemma foldl_increment:
  "foldl increment m inputText c =
     (if c \<in> set inputText \<or> m c \<noteq> None
      then Some ((case m c of None \<Rightarrow> 0 | Some n \<Rightarrow> n) + of_nat (count_list inputText c))
      else None)"
proof (induction inputText arbitrary: m)
  case Nil
  then show ?case by (cases "m c") simp_all
next
  case (Cons ch inputText)
  show ?case
    unfolding foldl_Cons Cons.IH
    by (cases "m c") (auto simp: increment_def)
qed

text \<open>The table in terms of the number of occurrences; the counts are taken modulo \<open>2^32\<close>.\<close>

lemma charFrequencyMap_count:
  "charFrequencyMap inputText c =
     (if c = newline then Some (of_nat (count_list inputText newline) + 1)
      else if c \<in> set inputText then Some (of_nat (count_list inputText c))
      else None)"
  by (simp add: charFrequencyMap_def increment_def foldl_increment)

lemma dom_charFrequencyMap: "dom (charFrequencyMap inputText) = insert newline (set inputText)"
  by (auto simp: charFrequencyMap_count dom_def)

lemma count_list_replicate: "count_list (replicate n x) x = n"
  by (induction n) simp_all

lemma count_list_le_length: "count_list xs x \<le> length xs"
  by (induction xs) simp_all

text \<open>
  C4 as the code has it. The counts are \<open>unsigned\<close>, so they are exact as long as
  they fit: for an input of fewer than \<open>2^32 - 1\<close> bytes the line break has its number
  of occurrences plus one (at least 1), every other symbol of the table has its number of
  occurrences, the table holds the symbols of the input and the line break, the counts
  add up to the input length plus 1, and the empty input gives the single entry
  (line break, 1). Counting is a total function: it has no failure.
\<close>

theorem frequency_table_counts:
  assumes "length inputText < 2 ^ 32 - 1"
  shows "(\<exists>n. charFrequencyMap inputText newline = Some n
            \<and> unat n = count_list inputText newline + 1 \<and> 1 \<le> unat n)
     \<and> (\<forall>c n. c \<noteq> newline \<and> charFrequencyMap inputText c = Some n
            \<longrightarrow> unat n = count_list inputText c)
     \<and> dom (charFrequencyMap inputText) = insert newline (set inputText)
     \<and> (\<Sum>c \<in> dom (charFrequencyMap inputText). unat (the (charFrequencyMap inputText c)))
           = length inputText + 1
     \<and> (inputText = [] \<longrightarrow> charFrequencyMap inputText = [newline \<mapsto> 1])"
proof -
  have small: "count_list inputText c < 2 ^ 32 - 1" for c
    using count_list_le_length [of inputText c] assms by simp
  have u: "unat (of_nat (count_list inputText c) :: 32 word) = count_list inputText c" for c
    using small [of c] by (simp add: unat_of_nat)
  have "unat (of_nat (count_list inputText newline) + 1 :: 32 word)
      = unat (of_nat (Suc (count_list inputText newline)) :: 32 word)"
    by (simp add: add.commute)
  also have "\<dots> = Suc (count_list inputText newline)"
    using small [of newline] unfolding unat_of_nat by simp
  finally have u1: "unat (of_nat (count_list inputText newline) + 1 :: 32 word)
      = count_list inputText newline + 1"
    by simp
  have nl: "\<exists>n. charFrequencyMap inputText newline = Some n
      \<and> unat n = count_list inputText newline + 1 \<and> 1 \<le> unat n"
    using u1 by (simp add: charFrequencyMap_count)
  have other: "\<forall>c n. c \<noteq> newline \<and> charFrequencyMap inputText c = Some n
      \<longrightarrow> unat n = count_list inputText c"
    using u by (auto simp: charFrequencyMap_count split: if_splits)
  have val: "unat (the (charFrequencyMap inputText c))
      = count_list inputText c + (if c = newline then 1 else 0)"
    if "c \<in> insert newline (set inputText)" for c
    using that u u1 by (auto simp: charFrequencyMap_count)
  have "(\<Sum>c \<in> dom (charFrequencyMap inputText). unat (the (charFrequencyMap inputText c)))
      = (\<Sum>c \<in> insert newline (set inputText).
            count_list inputText c + (if c = newline then 1 else 0))"
    unfolding dom_charFrequencyMap using val by (intro sum.cong) simp_all
  also have "\<dots> = (\<Sum>c \<in> insert newline (set inputText). count_list inputText c)
      + (\<Sum>c \<in> insert newline (set inputText). if c = newline then 1 else 0)"
    by (rule sum.distrib)
  also have "(\<Sum>c \<in> insert newline (set inputText). count_list inputText c) = length inputText"
    by (rule sum_count_set) auto
  also have "(\<Sum>c \<in> insert newline (set inputText). if c = newline then 1 else 0) = (1::nat)"
    by simp
  finally have total: "(\<Sum>c \<in> dom (charFrequencyMap inputText).
      unat (the (charFrequencyMap inputText c))) = length inputText + 1" .
  have "inputText = [] \<longrightarrow> charFrequencyMap inputText = [newline \<mapsto> 1]"
    by (auto simp: charFrequencyMap_def increment_def)
  with nl other total show ?thesis
    using dom_charFrequencyMap by blast
qed

theorem frequency_table_counts_witness:
  "length ''aab'' < 2 ^ 32 - 1
   \<and> charFrequencyMap ''aab'' newline = Some 1
   \<and> charFrequencyMap ''aab'' CHR ''a'' = Some 2
   \<and> (\<Sum>c \<in> dom (charFrequencyMap ''aab''). unat (the (charFrequencyMap ''aab'' c))) = 4"
proof -
  have h: "length ''aab'' < 2 ^ 32 - 1" by simp
  have e: "charFrequencyMap ''aab'' newline = Some 1" "charFrequencyMap ''aab'' CHR ''a'' = Some 2"
    by (simp_all add: charFrequencyMap_count newline_def)
  from frequency_table_counts [OF h]
  have "(\<Sum>c \<in> dom (charFrequencyMap ''aab''). unat (the (charFrequencyMap ''aab'' c)))
      = length ''aab'' + 1"
    by blast
  also have "length ''aab'' + 1 = 4" by simp
  finally show ?thesis using h e by blast
qed

text \<open>
  The claim as stated fails for a long input: after \<open>2^32 - 1\<close> line breaks the forced
  increment wraps the count of the line break around to 0.
\<close>

theorem frequency_table_counterexample:
  "charFrequencyMap (replicate 4294967295 newline) newline = Some 0
   \<and> count_list (replicate 4294967295 newline) newline + 1 = 4294967296"
  by (simp add: charFrequencyMap_count count_list_replicate)

section \<open>Properties of the code generator\<close>

lemma assign_append: "assign m (xs @ ys) = assign (assign m xs) ys"
  by (simp add: assign_def)

lemma GenerateHuffmanCodes_assign:
  "GenerateHuffmanCodes t str m = assign m (leaf_codes t str)"
  by (induction t arbitrary: str m) (simp_all add: assign_append, simp_all add: assign_def)

lemma assign_distinct:
  "distinct (map fst ps) \<Longrightarrow> assign m ps c = (case map_of ps c of None \<Rightarrow> m c | Some s \<Rightarrow> Some s)"
proof (induction ps arbitrary: m)
  case Nil
  then show ?case by (simp add: assign_def)
next
  case (Cons p ps)
  obtain k v where p: "p = (k, v)" by (cases p)
  from Cons.prems p have k: "map_of ps k = None" and d: "distinct (map fst ps)"
    by (auto simp: map_of_eq_None_iff)
  have "assign m (p # ps) c = assign (m(k \<mapsto> v)) ps c"
    by (simp add: assign_def p)
  also have "\<dots> = (case map_of ps c of None \<Rightarrow> (m(k \<mapsto> v)) c | Some s \<Rightarrow> Some s)"
    by (rule Cons.IH [OF d])
  finally show ?case using k p by (auto split: option.splits)
qed

lemma map_fst_leaf_codes: "map fst (leaf_codes t str) = symbols t"
  by (induction t arbitrary: str) simp_all

lemma leaf_codes_prefix: "(c, s) \<in> set (leaf_codes t str) \<Longrightarrow> prefix str s"
proof (induction t arbitrary: str)
  case Null
  then show ?case by simp
next
  case (Node c' f l r)
  from Node.prems consider "s = str" | "(c, s) \<in> set (leaf_codes l (str @ ''0''))"
    | "(c, s) \<in> set (leaf_codes r (str @ ''1''))"
    by (auto split: if_splits)
  then show ?case
  proof cases
    case 1
    then show ?thesis by simp
  next
    case 2
    from Node.IH(1) [OF this] show ?thesis by (rule append_prefixD)
  next
    case 3
    from Node.IH(2) [OF this] show ?thesis by (rule append_prefixD)
  qed
qed

lemma leaf_codes_bits:
  "(c, s) \<in> set (leaf_codes t str) \<Longrightarrow> list_all is_bit str \<Longrightarrow> list_all is_bit s"
  by (induction t arbitrary: str) (auto simp: is_bit_def split: if_splits)

lemma branches_differ:
  assumes "prefix (str @ [x]) s" and "prefix (str @ [y]) t" and "x \<noteq> y"
  shows "\<not> prefix s t"
proof
  assume "prefix s t"
  with assms(1) have "prefix (str @ [x]) t" by (meson prefix_order.trans)
  from prefix_same_cases [OF this assms(2)] assms(3) show False by simp
qed

lemma leaf_codes_prefix_free:
  "distinct (symbols t) \<Longrightarrow> (a, ca) \<in> set (leaf_codes t str) \<Longrightarrow>
   (b, cb) \<in> set (leaf_codes t str) \<Longrightarrow> a \<noteq> b \<Longrightarrow> \<not> prefix ca cb"
proof (induction t arbitrary: str)
  case Null
  then show ?case by simp
next
  case (Node c f l r)
  show ?case
  proof (cases "l = Null \<and> r = Null")
    case True
    with Node.prems show ?thesis by simp
  next
    case False
    from Node.prems(1) False have dl: "distinct (symbols l)" and dr: "distinct (symbols r)"
      by simp_all
    from Node.prems(2) False consider (l) "(a, ca) \<in> set (leaf_codes l (str @ ''0''))"
      | (r) "(a, ca) \<in> set (leaf_codes r (str @ ''1''))"
      by auto
    then show ?thesis
    proof cases
      case l
      from Node.prems(3) False consider (l') "(b, cb) \<in> set (leaf_codes l (str @ ''0''))"
        | (r') "(b, cb) \<in> set (leaf_codes r (str @ ''1''))"
        by auto
      then show ?thesis
      proof cases
        case l'
        from Node.IH(1) [OF dl l l' Node.prems(4)] show ?thesis .
      next
        case r'
        from leaf_codes_prefix [OF l] leaf_codes_prefix [OF r'] show ?thesis
          by (rule branches_differ) simp
      qed
    next
      case r
      from Node.prems(3) False consider (l') "(b, cb) \<in> set (leaf_codes l (str @ ''0''))"
        | (r') "(b, cb) \<in> set (leaf_codes r (str @ ''1''))"
        by auto
      then show ?thesis
      proof cases
        case l'
        from leaf_codes_prefix [OF r] leaf_codes_prefix [OF l'] show ?thesis
          by (rule branches_differ) simp
      next
        case r'
        from Node.IH(2) [OF dr r r' Node.prems(4)] show ?thesis .
      qed
    qed
  qed
qed


section \<open>Properties of the iteration over a hash map\<close>

lemma map_fst_map_filter:
  "map fst (List.map_filter (\<lambda>c. map_option (Pair c) (m c)) xs) = filter (\<lambda>c. m c \<noteq> None) xs"
  by (induction xs) (auto simp: List.map_filter_simps split: option.splits)

lemma set_map_filter_entries:
  "set (List.map_filter (\<lambda>c. map_option (Pair c) (m c)) xs) = {(c, v). c \<in> set xs \<and> m c = Some v}"
  by (induction xs) (auto simp: List.map_filter_simps split: option.splits)

lemma distinct_all_keys: "distinct (all_keys order)"
  by (auto simp: all_keys_def enum_distinct)

lemma set_all_keys: "set (all_keys order) = UNIV"
  using enum_UNIV [where 'a = char] by (auto simp: all_keys_def)

lemma iteration_all_keys:
  "iteration order m = List.map_filter (\<lambda>c. map_option (Pair c) (m c)) (all_keys order)"
  by (simp add: iteration_def all_keys_def)

lemma distinct_iteration: "distinct (map fst (iteration order m))"
  by (simp add: iteration_all_keys map_fst_map_filter distinct_all_keys)

lemma set_iteration: "set (iteration order m) = {(c, v). m c = Some v}"
  by (simp add: iteration_all_keys set_map_filter_entries set_all_keys)

lemma map_of_iteration: "map_of (iteration order m) = m"
proof
  fix c
  show "map_of (iteration order m) c = m c"
  proof (cases "m c")
    case None
    then have "c \<notin> fst ` set (iteration order m)"
      by (auto simp: set_iteration)
    then show ?thesis using None by (simp add: map_of_eq_None_iff)
  next
    case (Some v)
    then have "(c, v) \<in> set (iteration order m)" by (simp add: set_iteration)
    then show ?thesis using Some distinct_iteration [of order m] by simp
  qed
qed

lemma seed_queue_map: "seed_queue entries = map (\<lambda>p. Node (fst p) (snd p) Null Null) entries"
proof -
  have "foldl (\<lambda>q p. push q (Node (fst p) (snd p) Null Null)) q0 entries
      = q0 @ map (\<lambda>p. Node (fst p) (snd p) Null Null) entries" for q0
    by (induction entries arbitrary: q0) (simp_all add: push_def)
  then show ?thesis by (simp add: seed_queue_def)
qed

lemma map_filter_singleton:
  "distinct xs \<Longrightarrow>
   List.map_filter (\<lambda>c. map_option (Pair c) (if c = k then Some v else None)) xs
     = (if k \<in> set xs then [(k, v)] else [])"
  by (induction xs) (auto simp: List.map_filter_simps)

lemma iteration_singleton: "iteration order [k \<mapsto> v] = [(k, v)]"
  by (simp add: iteration_all_keys map_filter_singleton distinct_all_keys set_all_keys)

section \<open>Properties of the merge loop\<close>

lemma pq_top_least: "q \<noteq> [] \<Longrightarrow> y \<in> set q \<Longrightarrow> frequency (pq_top k q) \<le> frequency y"
  using pq_top_in_candidates [of q k]
  by (auto simp: pq_candidates_def list_all_iff CompareNodes_def not_less)

lemma merge_loop_induct [consumes 1, case_names root merge]:
  assumes "merge_loop ks q = Some root"
    and "\<And>t. P [t] t"
    and "\<And>q l r t. 2 \<le> length q \<Longrightarrow> l \<in> set q \<Longrightarrow> r \<in> set (remove1 l q) \<Longrightarrow>
          (\<And>y. y \<in> set q \<Longrightarrow> frequency l \<le> frequency y) \<Longrightarrow>
          (\<And>y. y \<in> set (remove1 l q) \<Longrightarrow> frequency r \<le> frequency y) \<Longrightarrow>
          P (remove1 r (remove1 l q) @ [Node (CHR ''$'') (frequency l + frequency r) l r]) t \<Longrightarrow>
          P q t"
  shows "P q root"
  using assms(1)
proof (induction ks q rule: merge_loop.induct)
  case (1 ks)
  then show ?case by simp
next
  case (2 ks t)
  then show ?case using assms(2) by simp
next
  case (3 ks x y q)
  define q0 where "q0 = x # y # q"
  define l where "l = pq_top (next_choice ks) q0"
  define q1 where "q1 = pop (next_choice ks) q0"
  define r where "r = pq_top (next_choice (tl ks)) q1"
  define q2 where "q2 = pop (next_choice (tl ks)) q1"
  define parent where "parent = Node (CHR ''$'') (frequency l + frequency r) l r"
  have q0: "q0 \<noteq> []" "2 \<le> length q0" by (simp_all add: q0_def)
  have q1: "q1 = remove1 l q0" by (simp add: q1_def pop_def l_def)
  have "Suc (length q1) = length q0" unfolding q1_def using q0(1) by (rule length_pop)
  with q0(2) have q1ne: "q1 \<noteq> []" by auto
  have q2: "q2 = remove1 r q1" by (simp add: q2_def pop_def r_def)
  have run: "merge_loop ks (x # y # q) = merge_loop (tl (tl ks)) (push q2 parent)"
    unfolding q0_def l_def q1_def r_def q2_def parent_def merge_loop.simps(3) Let_def ..
  from 3(2) have "merge_loop (tl (tl ks)) (push q2 parent) = Some root"
    unfolding run .
  from 3(1) [OF q0_def l_def q1_def r_def q2_def parent_def this]
  have "P (push q2 parent) root" .
  then have P': "P (remove1 r (remove1 l q0) @ [Node (CHR ''$'') (frequency l + frequency r) l r]) root"
    unfolding push_def q2 q1 parent_def .
  have l: "l \<in> set q0" unfolding l_def using q0(1) by (rule pq_top_in_queue)
  have r: "r \<in> set (remove1 l q0)"
    unfolding r_def q1 [symmetric] using q1ne by (rule pq_top_in_queue)
  have lmin: "frequency l \<le> frequency y" if "y \<in> set q0" for y
    unfolding l_def using q0(1) that by (rule pq_top_least)
  have rmin: "frequency r \<le> frequency y" if "y \<in> set (remove1 l q0)" for y
    unfolding r_def using q1ne that unfolding q1 by (rule pq_top_least)
  have "P q0 root"
    using q0(2) l r lmin rmin P' by (rule assms(3))
  then show ?case unfolding q0_def .
qed
lemma merge_loop_total: "q \<noteq> [] \<Longrightarrow> \<exists>root. merge_loop ks q = Some root"
proof (induction ks q rule: merge_loop.induct)
  case (1 ks)
  then show ?case by simp
next
  case (2 ks t)
  then show ?case by simp
next
  case (3 ks x y q)
  show ?case
    using 3(1) [OF refl refl refl refl refl refl] by (simp add: Let_def push_def)
qed

lemma queue_symbols_remove1:
  "t \<in> set q \<Longrightarrow> mset (queue_symbols q) = mset (symbols t) + mset (queue_symbols (remove1 t q))"
  by (induction q) (auto simp: queue_symbols_def)

text \<open>The root holds the leaves that were in the queue, each once.\<close>

lemma merge_loop_symbols:
  assumes "merge_loop ks q = Some root" and "Null \<notin> set q"
  shows "mset (symbols root) = mset (queue_symbols q) \<and> root \<noteq> Null"
  using assms
proof (induction rule: merge_loop_induct)
  case (root t)
  then show ?case by (auto simp: queue_symbols_def)
next
  case (merge q l r t)
  let ?parent = "Node (CHR ''$'') (frequency l + frequency r) l r"
  let ?rest = "remove1 r (remove1 l q)"
  from merge.hyps(2,3) merge.prems have nn: "l \<noteq> Null" "r \<noteq> Null"
    by (auto dest: notin_set_remove1)
  have "set ?rest \<subseteq> set q"
    by (meson set_remove1_subset subset_trans)
  with merge.prems have "Null \<notin> set (?rest @ [?parent])" by auto
  from merge.IH [OF this]
  have "mset (symbols t) = mset (queue_symbols (?rest @ [?parent]))" and "t \<noteq> Null"
    by simp_all
  moreover have "mset (queue_symbols (?rest @ [?parent]))
      = mset (queue_symbols ?rest) + (mset (symbols l) + mset (symbols r))"
    using nn by (simp add: queue_symbols_def)
  moreover have "mset (queue_symbols q)
      = mset (symbols l) + (mset (symbols r) + mset (queue_symbols ?rest))"
    using queue_symbols_remove1 [OF merge.hyps(2)] queue_symbols_remove1 [OF merge.hyps(3)]
    by simp
  ultimately show ?case by simp
qed

text \<open>With two or more nodes in the queue the root is a node made by the loop.\<close>

lemma merge_loop_internal:
  assumes "merge_loop ks q = Some root" and "Null \<notin> set q"
  shows "(length q = 1 \<longrightarrow> root = hd q)
     \<and> (2 \<le> length q \<longrightarrow> (\<exists>f l r. root = Node (CHR ''$'') f l r \<and> l \<noteq> Null \<and> r \<noteq> Null))"
  using assms
proof (induction rule: merge_loop_induct)
  case (root t)
  then show ?case by simp
next
  case (merge q l r t)
  let ?parent = "Node (CHR ''$'') (frequency l + frequency r) l r"
  let ?rest = "remove1 r (remove1 l q)"
  from merge.hyps(2,3) merge.prems have nn: "l \<noteq> Null" "r \<noteq> Null"
    by (auto dest: notin_set_remove1)
  have "set ?rest \<subseteq> set q"
    by (meson set_remove1_subset subset_trans)
  with merge.prems have "Null \<notin> set (?rest @ [?parent])" by auto
  note IH = merge.IH [OF this]
  show ?case
  proof (cases "?rest = []")
    case True
    with IH have "t = ?parent" by simp
    with nn merge.hyps(1) show ?thesis by auto
  next
    case False
    then have "2 \<le> length (?rest @ [?parent])" by (cases ?rest) simp_all
    with IH merge.hyps(1) show ?thesis by auto
  qed
qed

section \<open>Properties of the generated code table\<close>

lemma queue_symbols_seed: "queue_symbols (seed_queue entries) = map fst entries"
  by (induction entries) (simp_all add: seed_queue_map queue_symbols_def)

lemma Null_notin_seed: "Null \<notin> set (seed_queue entries)"
  by (auto simp: seed_queue_map)

lemma assign_empty_distinct:
  "distinct (map fst ps) \<Longrightarrow> assign Map.empty ps = map_of ps"
  by (rule ext) (simp add: assign_distinct split: option.splits)

text \<open>
  The code table is read off the leaves of the tree; the leaves carry the symbols of the
  frequency table, each once.
\<close>

lemma huffmanCodeMap_tree:
  assumes "huffmanCodeMap ks order1 freqs = Some codes"
  shows "\<exists>root. huffman_tree ks order1 freqs = Some root \<and> root \<noteq> Null
           \<and> distinct (symbols root) \<and> set (symbols root) = dom freqs
           \<and> codes = map_of (leaf_codes root [])"
proof -
  from assms obtain root where root: "huffman_tree ks order1 freqs = Some root"
    and codes: "codes = GenerateHuffmanCodes root [] Map.empty"
    by (auto simp: huffmanCodeMap_def split: option.splits)
  from root have "merge_loop ks (seed_queue (iteration order1 freqs)) = Some root"
    by (simp add: huffman_tree_def)
  from merge_loop_symbols [OF this Null_notin_seed]
  have m: "mset (symbols root) = mset (map fst (iteration order1 freqs))" and nn: "root \<noteq> Null"
    by (simp_all add: queue_symbols_seed)
  from m have d: "distinct (symbols root)"
    using distinct_iteration [of order1 freqs] by (metis mset_eq_imp_distinct_iff)
  from m have "set (symbols root) = set (map fst (iteration order1 freqs))"
    by (rule mset_eq_setD)
  also have "\<dots> = dom freqs"
    by (auto simp: set_iteration dom_def image_iff)
  finally have s: "set (symbols root) = dom freqs" .
  from d have "codes = map_of (leaf_codes root [])"
    unfolding codes GenerateHuffmanCodes_assign
    by (intro assign_empty_distinct) (simp add: map_fst_leaf_codes)
  with root nn d s show ?thesis by blast
qed

lemma huffmanCodeMap_total:
  assumes "freqs c \<noteq> None"
  shows "\<exists>codes. huffmanCodeMap ks order1 freqs = Some codes"
proof -
  from assms obtain v where "(c, v) \<in> set (iteration order1 freqs)"
    by (auto simp: set_iteration)
  then have "seed_queue (iteration order1 freqs) \<noteq> []"
    by (auto simp: seed_queue_map)
  from merge_loop_total [OF this] show ?thesis
    by (auto simp: huffmanCodeMap_def huffman_tree_def split: option.splits)
qed

text \<open>
  C5. In the code table of a compression run, whatever the choices of the priority queue
  and the iteration order, the codes of two different symbols are not prefixes of each
  other.
\<close>

theorem code_table_prefix_free:
  assumes "huffmanCodeMap ks order1 (charFrequencyMap inputText) = Some codes"
    and "a \<noteq> b" and "codes a = Some ca" and "codes b = Some cb"
  shows "\<not> prefix ca cb \<and> \<not> prefix cb ca"
proof -
  from huffmanCodeMap_tree [OF assms(1)] obtain root where
    d: "distinct (symbols root)" and codes: "codes = map_of (leaf_codes root [])"
    by blast
  from assms(3,4) have a: "(a, ca) \<in> set (leaf_codes root [])"
    and b: "(b, cb) \<in> set (leaf_codes root [])"
    unfolding codes by (auto dest: map_of_SomeD)
  from leaf_codes_prefix_free [OF d a b assms(2)]
    leaf_codes_prefix_free [OF d b a assms(2) [symmetric]]
  show ?thesis ..
qed

theorem code_table_prefix_free_witness:
  "huffmanCodeMap [] [] (charFrequencyMap ''aab'')
     = Some (GenerateHuffmanCodes
         (Node (CHR ''$'') 4 (Node (CHR ''a'') 2 Null Null)
            (Node (CHR ''$'') 2 (Node newline 1 Null Null) (Node (CHR ''b'') 1 Null Null)))
         [] Map.empty)
   \<and> \<not> prefix ''0'' ''11'' \<and> \<not> prefix ''11'' ''0''"
proof -
  let ?root = "Node (CHR ''$'') 4 (Node (CHR ''a'') 2 Null Null)
            (Node (CHR ''$'') 2 (Node newline 1 Null Null) (Node (CHR ''b'') 1 Null Null))"
  let ?codes = "GenerateHuffmanCodes ?root [] Map.empty"
  have "huffman_tree [] [] (charFrequencyMap ''aab'') = Some ?root"
    by code_simp
  then have h: "huffmanCodeMap [] [] (charFrequencyMap ''aab'') = Some ?codes"
    by (simp add: huffmanCodeMap_def)
  have ne: "CHR ''a'' \<noteq> CHR ''b''" by simp
  have a: "?codes (CHR ''a'') = Some ''0''" and b: "?codes (CHR ''b'') = Some ''11''"
    by (simp_all add: newline_def)
  from code_table_prefix_free [OF h ne a b] h show ?thesis
    by blast
qed

text \<open>
  C3. The claim wants a code of at least one bit for the symbol of a table with a single
  entry. The loop does not run for a queue of one node, the root is that leaf, and
  \<open>GenerateHuffmanCodes\<close> gives it the empty path: for the empty input, and for any
  input of line breaks only, the code of the line break is the empty string, whatever
  the choices of the library.
\<close>

theorem single_symbol_gets_empty_code:
  "huffmanCodeMap ks order1 (charFrequencyMap (replicate n newline)) = Some [newline \<mapsto> []]"
proof -
  have "charFrequencyMap (replicate n newline) = [newline \<mapsto> of_nat n + 1]"
    by (rule ext) (simp add: charFrequencyMap_count count_list_replicate)
  then show ?thesis
    by (simp add: huffmanCodeMap_def huffman_tree_def iteration_singleton seed_queue_map)
qed

section \<open>Properties of a compression run\<close>

text \<open>A compression run always produces its two files.\<close>

lemma BuildHuffmanTree_total:
  "\<exists>packed codeFile. BuildHuffmanTree ks order1 order2 inputText = Some (packed, codeFile)"
proof -
  have "charFrequencyMap inputText newline \<noteq> None"
    by (simp add: charFrequencyMap_count)
  from huffmanCodeMap_total [of "charFrequencyMap inputText" newline ks order1, OF this]
  show ?thesis
    by (auto simp: BuildHuffmanTree_def Let_def split: option.splits)
qed

lemma BuildHuffmanTree_Some:
  assumes "BuildHuffmanTree ks order1 order2 inputText = Some (packed, codeFile)"
  shows "\<exists>codes. huffmanCodeMap ks order1 (charFrequencyMap inputText) = Some codes
           \<and> packed = WriteEncodedStringToFile (concat (map (code_of codes) inputText))
           \<and> codeFile = concat (map code_record (iteration order2 codes))"
  using assms by (auto simp: BuildHuffmanTree_def Let_def split: option.splits)

lemma code_record_line: "code_record pair = record_line pair @ [newline]"
  by (simp add: code_record_def record_line_def)

lemma getlines_records:
  "(\<And>p. p \<in> set entries \<Longrightarrow> newline \<notin> set (snd p)) \<Longrightarrow>
   getlines (concat (map code_record entries)) = map record_line entries"
proof (induction entries)
  case Nil
  then show ?case by simp
next
  case (Cons p entries)
  from Cons.prems have "newline \<notin> set (record_line p)"
    by (auto simp: record_line_def escaped_newline_def newline_def)
  then have "getlines (record_line p @ newline # concat (map code_record entries))
      = record_line p # getlines (concat (map code_record entries))"
    by (rule getlines_line)
  moreover have "getlines (concat (map code_record entries)) = map record_line entries"
    using Cons.prems by (intro Cons.IH) simp
  moreover have "concat (map code_record (p # entries))
      = record_line p @ newline # concat (map code_record entries)"
    by (simp add: code_record_line)
  ultimately show ?case by simp
qed

lemma distinct_iteration_entries: "distinct (iteration order m)"
  using distinct_iteration [of order m] by (simp add: distinct_map)

lemma mset_iteration: "mset (iteration order m) = mset (iteration order' m)"
  using distinct_iteration_entries [of order m] distinct_iteration_entries [of order' m]
  by (simp add: set_eq_iff_mset_eq_distinct [symmetric] set_iteration)

lemma code_table_bits:
  assumes "huffmanCodeMap ks order1 freqs = Some codes" and "codes c = Some s"
  shows "list_all is_bit s"
proof -
  from huffmanCodeMap_tree [OF assms(1)] obtain root where
    "codes = map_of (leaf_codes root [])"
    by blast
  with assms(2) have "(c, s) \<in> set (leaf_codes root [])"
    by (auto dest: map_of_SomeD)
  then show ?thesis by (rule leaf_codes_bits) simp
qed

text \<open>
  C1. The round trip fails on the code. For the input \<open>aab\<close> the four bits \<open>0011\<close>
  are written as the byte 3, which unpacks to \<open>00000011\<close> and decodes to \<open>aaaaaab\<close>.
  For the input \<open>aaaaaaaa\<close> the eight bits fill one byte, the packer writes it twice,
  and decompression yields sixteen \<open>a\<close>.
\<close>

theorem round_trip_fails:
  "BuildHuffmanTree [] [] [] ''aab''
     = Some ([3], escaped_newline @ '':10\<newline>a:0\<newline>b:11\<newline>'')
   \<and> DecodeFile [3] (escaped_newline @ '':10\<newline>a:0\<newline>b:11\<newline>'') = ''aaaaaab''
   \<and> BuildHuffmanTree [] [] [] ''aaaaaaaa''
     = Some ([255, 255], escaped_newline @ '':0\<newline>a:1\<newline>'')
   \<and> DecodeFile [255, 255] (escaped_newline @ '':0\<newline>a:1\<newline>'') = ''aaaaaaaaaaaaaaaa''"
  by code_simp

text \<open>
  C9 as the code has it. The source fixes neither the order in which the two hash maps
  are iterated nor the node that the priority queue returns among several of the least
  frequency; the output is a function of the input and of these. Two runs that differ
  only in the order of the iteration over \<open>huffmanCodeMap\<close> write the same packed bytes,
  and code table files with the same records in a different order.
\<close>

theorem output_up_to_record_order:
  assumes "BuildHuffmanTree ks order1 order2 inputText = Some (packed, codeFile)"
    and "BuildHuffmanTree ks order1 order2' inputText = Some (packed', codeFile')"
  shows "packed' = packed \<and> mset (getlines codeFile') = mset (getlines codeFile)"
proof -
  from BuildHuffmanTree_Some [OF assms(1)] obtain codes where
    codes: "huffmanCodeMap ks order1 (charFrequencyMap inputText) = Some codes"
    and packed: "packed = WriteEncodedStringToFile (concat (map (code_of codes) inputText))"
    and cf: "codeFile = concat (map code_record (iteration order2 codes))"
    by blast
  from BuildHuffmanTree_Some [OF assms(2)] codes
  have packed': "packed' = WriteEncodedStringToFile (concat (map (code_of codes) inputText))"
    and cf': "codeFile' = concat (map code_record (iteration order2' codes))"
    by auto
  have nl: "newline \<notin> set (snd p)" if "p \<in> set (iteration order codes)" for p order
  proof -
    obtain c s where p: "p = (c, s)" by (cases p)
    with that have "codes c = Some s" by (simp add: set_iteration)
    from code_table_bits [OF codes this] have "\<forall>x \<in> set s. is_bit x"
      by (simp add: list_all_iff)
    moreover have "\<not> is_bit newline"
      by (simp add: is_bit_def newline_def)
    ultimately show ?thesis using p by auto
  qed
  have g: "getlines codeFile = map record_line (iteration order2 codes)"
    unfolding cf by (rule getlines_records) (rule nl)
  have g': "getlines codeFile' = map record_line (iteration order2' codes)"
    unfolding cf' by (rule getlines_records) (rule nl)
  have "image_mset record_line (mset (iteration order2' codes))
      = image_mset record_line (mset (iteration order2 codes))"
    by (simp only: mset_iteration [of order2' codes order2])
  then have "mset (getlines codeFile') = mset (getlines codeFile)"
    unfolding g g' by (simp only: mset_map)
  with packed packed' show ?thesis by (simp only:)
qed

theorem output_up_to_record_order_witness:
  "BuildHuffmanTree [] [] [] ''a'' = Some ([1], escaped_newline @ '':0\<newline>a:1\<newline>'')
   \<and> BuildHuffmanTree [] [] ''a'' ''a'' = Some ([1], ''a:1\<newline>'' @ escaped_newline @ '':0\<newline>'')
   \<and> mset (getlines (''a:1\<newline>'' @ escaped_newline @ '':0\<newline>''))
       = mset (getlines (escaped_newline @ '':0\<newline>a:1\<newline>''))"
proof -
  have 1: "BuildHuffmanTree [] [] [] ''a'' = Some ([1], escaped_newline @ '':0\<newline>a:1\<newline>'')"
    by code_simp
  have 2: "BuildHuffmanTree [] [] ''a'' ''a''
      = Some ([1], ''a:1\<newline>'' @ escaped_newline @ '':0\<newline>'')"
    by code_simp
  from output_up_to_record_order [OF 1 2]
  have "mset (getlines (''a:1\<newline>'' @ escaped_newline @ '':0\<newline>''))
      = mset (getlines (escaped_newline @ '':0\<newline>a:1\<newline>''))"
    by (rule conjunct2)
  with 1 2 show ?thesis by (intro conjI)
qed

text \<open>
  The claim as stated fails: the nodes are pushed in the iteration order of
  \<open>charFrequencyMap\<close> and \<open>CompareNodes\<close> looks at frequencies only, so for the input
  \<open>a\<close>, where both nodes have frequency 1, the same choice of the queue gives the code
  \<open>0\<close> to the symbol iterated first: the packed byte is 0 for one order and 1 for the
  other, and the code tables differ.
\<close>

theorem tie_break_depends_on_iteration_order:
  "BuildHuffmanTree [] [CHR ''a'', newline] [] ''a''
     = Some ([0], escaped_newline @ '':1\<newline>a:0\<newline>'')
   \<and> BuildHuffmanTree [] [newline, CHR ''a''] [] ''a''
     = Some ([1], escaped_newline @ '':0\<newline>a:1\<newline>'')"
  by code_simp

section \<open>Optimality of the generated code\<close>

lemma pcost_add [simp]: "pcost (add_mset (w, d) P) = w * d + pcost P"
  by (simp add: pcost_def)

lemma pcost_empty [simp]: "pcost {#} = 0"
  by (simp add: pcost_def)

lemma pcost_union [simp]: "pcost (P + Q) = pcost P + pcost Q"
  by (simp add: pcost_def)

lemma full_nonempty: "full D \<Longrightarrow> D \<noteq> {#}"
  by (induction rule: full.induct) auto

lemma full_size_1: "full D \<Longrightarrow> size D = 1 \<Longrightarrow> D = {#0#}"
proof (induction rule: full.induct)
  case leaf
  then show ?case by simp
next
  case (node A B)
  from node.hyps have "size A \<noteq> 0" "size B \<noteq> 0"
    by (auto dest: full_nonempty)
  with node.prems show ?case by simp
qed





lemma map_fst_leaf_entries: "map fst (leaf_entries t) = symbols t"
  by (induction t) simp_all





















end
